theory Spec2Isabelle
  imports Main
begin

section \<open>Python string operations used by the utterance encoder\<close>

text \<open>
  A Python \<open>str\<close> is a sequence of code points. Here a \<open>char\<close> stands for the code
  point of the same number, so a \<open>string\<close> is a Python string whose code points are all
  below 256. On that range \<open>str.strip\<close>, \<open>str.lower\<close> and \<open>str.split\<close> behave as
  defined below.
\<close>

text \<open>
  The characters that \<open>str.strip()\<close> and \<open>str.split()\<close> (both called without an
  argument) treat as whitespace: tab, line feed, vertical tab, form feed, carriage return
  (9 to 13), the four separators 28 to 31, the space (32), next line (133) and the
  no-break space (160).
\<close>

definition isspace :: "char \<Rightarrow> bool" where
  "isspace c =
     (let n = (of_char c :: nat)
      in (9 \<le> n \<and> n \<le> 13) \<or> (28 \<le> n \<and> n \<le> 32) \<or> n = 133 \<or> n = 160)"

text \<open>
  Lower-casing of one code point: the letters A to Z, and the accented capitals 192 to 222
  except the multiplication sign 215, move up by 32; every other code point below 256 is
  its own lower case.
\<close>

definition lower_char :: "char \<Rightarrow> char" where
  "lower_char c =
     (let n = (of_char c :: nat)
      in if (65 \<le> n \<and> n \<le> 90) \<or> (192 \<le> n \<and> n \<le> 214) \<or> (216 \<le> n \<and> n \<le> 222)
         then char_of (n + 32) else c)"

text \<open>\<open>s.lower()\<close>\<close>

definition lower :: "string \<Rightarrow> string" where
  "lower s = map lower_char s"

text \<open>\<open>s.strip()\<close>: the whitespace at both ends is removed.\<close>

definition strip :: "string \<Rightarrow> string" where
  "strip s = rev (dropWhile isspace (rev (dropWhile isspace s)))"

text \<open>\<open>sep.join(xs)\<close>\<close>

fun join :: "string \<Rightarrow> string list \<Rightarrow> string" where
  "join sep [] = []"
| "join sep [x] = x"
| "join sep (x # y # ys) = x @ sep @ join sep (y # ys)"

text \<open>
  \<open>s.split()\<close>: skip the whitespace, take the characters up to the next whitespace as
  one token, and go on with the rest; no token is empty.
\<close>

function split :: "string \<Rightarrow> string list" where
  "split s =
     (case dropWhile isspace s of
        [] \<Rightarrow> []
      | c # r \<Rightarrow>
          (c # takeWhile (\<lambda>x. \<not> isspace x) r) # split (dropWhile (\<lambda>x. \<not> isspace x) r))"
  by pat_completeness auto
termination
proof (relation "measure length")
  show "wf (measure length)" by simp
next
  fix s :: string and c r
  assume "dropWhile isspace s = c # r"
  then have "Suc (length r) \<le> length s"
    by (metis length_dropWhile_le length_Cons)
  moreover have "length (dropWhile (\<lambda>x. \<not> isspace x) r) \<le> length r"
    by (rule length_dropWhile_le)
  ultimately show "(dropWhile (\<lambda>x. \<not> isspace x) r, s) \<in> measure length"
    by simp
qed

declare split.simps [simp del]

section \<open>Tensors\<close>

text \<open>
  \<open>torch.tensor\<close> of a list of Python integers builds a tensor of 64-bit signed
  integers and raises when an element does not fit. A tensor of one dimension is the list
  of its elements; \<open>unsqueeze(0)\<close> puts a batch dimension of size one in front. The move
  to the module's device keeps the values.
\<close>

definition fits_int64 :: "int \<Rightarrow> bool" where
  "fits_int64 i = (- (2 ^ 63) \<le> i \<and> i < 2 ^ 63)"

definition torch_tensor :: "int list \<Rightarrow> int list option" where
  "torch_tensor xs = (if list_all fits_int64 xs then Some xs else None)"

definition unsqueeze :: "'a \<Rightarrow> 'a list" where
  "unsqueeze t = [t]"

section \<open>The encoder\<close>

text \<open>
  An entry of the dialogue history is a speaker tag and the text of the utterance (the
  two-element list \<open>[tag, text]\<close> of the source); the encoder reads the text as
  \<open>item[1]\<close>.
\<close>

type_synonym turn = "string \<times> string"

text \<open>
  What a call can raise: the exception of the vocabulary lookup, which is passed on as it
  is, or the overflow of \<open>torch.tensor\<close>.
\<close>

datatype 'e error = Lookup_raised 'e | Tensor_overflow

text \<open>
  The first statement of \<open>forward\<close>:
  \<^verbatim>\<open>context = ' ; '.join([item[1].strip().lower() for item in dial_history]).strip() + ' ;'\<close>
\<close>

definition context_of :: "turn list \<Rightarrow> string" where
  "context_of dial_history =
     strip (join '' ; '' (map (\<lambda>item. lower (strip (snd item))) dial_history)) @ '' ;''"

text \<open>
  \<open>UtteranceEncoderNM.forward\<close>. The vocabulary lookup \<open>self.data_desc.vocab.tokens2ids\<close>
  belongs to the data descriptor the module was built with and is a parameter here: it
  returns the ids, or raises (\<open>Inl\<close>). The history is a list that the call changes in
  place, so the result is a pair: what the call returns or raises, and the history object
  as the call leaves it. A length of a Python list always fits a 64-bit integer, so only
  the ids are checked for overflow.
\<close>

definition forward ::
  "(string list \<Rightarrow> 'e + int list) \<Rightarrow> turn list \<Rightarrow> string \<Rightarrow> string \<Rightarrow>
     ('e error + int list list \<times> int list \<times> turn list) \<times> turn list" where
  "forward tokens2ids dial_history user_uttr sys_uttr =
     (let context = context_of dial_history
      in case tokens2ids (split context) of
           Inl e \<Rightarrow> (Inl (Lookup_raised e), dial_history)
         | Inr context_ids \<Rightarrow>
             (case torch_tensor context_ids of
                None \<Rightarrow> (Inl Tensor_overflow, dial_history)
              | Some t \<Rightarrow>
                  (let dialog_ids = unsqueeze t;
                       dialog_lens = unsqueeze (int (length context_ids));
                       dial_history1 = dial_history @ [(''sys'', sys_uttr)];
                       dial_history2 = dial_history1 @ [(''user'', user_uttr)]
                   in (Inr (dialog_ids, dialog_lens, dial_history2), dial_history2))))"

text \<open>
  What a call hands back apart from the history: the ids and the lengths, or what it raised.
\<close>

definition returned_encoding ::
  "'x + int list list \<times> int list \<times> turn list \<Rightarrow> 'x + int list list \<times> int list" where
  "returned_encoding r =
     (case r of
        Inl e \<Rightarrow> Inl e
      | Inr (dialog_ids, dialog_lens, _) \<Rightarrow> Inr (dialog_ids, dialog_lens))"

text \<open>
  Modelled from the spec: the vocabulary lookup is not among the sources; the spec says
  that it maps the tokens to integer ids and that the ids correspond one to one to the
  tokens. A lookup that keeps this contract returns as many ids as it was given tokens.
\<close>

definition one_id_per_token :: "(string list \<Rightarrow> 'e + int list) \<Rightarrow> bool" where
  "one_id_per_token tokens2ids =
     (\<forall>tokens ids. tokens2ids tokens = Inr ids \<longrightarrow> length ids = length tokens)"

section \<open>Upper case and printable text, for the case-folding property\<close>

text \<open>
  The printable ASCII characters are the code points 32 to 126. On text of such characters
  \<open>s.upper()\<close> moves the letters a to z down by 32 and keeps everything else.
\<close>

definition printable_ascii :: "string \<Rightarrow> bool" where
  "printable_ascii s = list_all (\<lambda>c. 32 \<le> (of_char c :: nat) \<and> (of_char c :: nat) \<le> 126) s"

definition upper_char :: "char \<Rightarrow> char" where
  "upper_char c =
     (let n = (of_char c :: nat)
      in if 97 \<le> n \<and> n \<le> 122 then char_of (n - 32) else c)"

definition upper :: "string \<Rightarrow> string" where
  "upper s = map upper_char s"

section \<open>Facts about the string operations\<close>

lemma split_Nil: "split [] = []"
  by (simp add: split.simps)

lemma split_space: "isspace c \<Longrightarrow> split (c # s) = split s"
  by (simp add: split.simps [of "c # s"] split.simps [of s])

lemma split_token:
  "\<not> isspace c \<Longrightarrow>
   split (c # s) = (c # takeWhile (\<lambda>x. \<not> isspace x) s) # split (dropWhile (\<lambda>x. \<not> isspace x) s)"
  by (simp add: split.simps [of "c # s"])

lemma takeWhile_until_space:
  "isspace c \<Longrightarrow>
   takeWhile (\<lambda>x. \<not> isspace x) (s @ c # t) = takeWhile (\<lambda>x. \<not> isspace x) s"
  by (induction s) auto

lemma dropWhile_until_space:
  "isspace c \<Longrightarrow>
   dropWhile (\<lambda>x. \<not> isspace x) (s @ c # t) = dropWhile (\<lambda>x. \<not> isspace x) s @ c # t"
  by (induction s) auto

text \<open>A whitespace character ends the token before it: splitting distributes over it.\<close>

lemma split_append_space:
  assumes "isspace c"
  shows "split (s @ c # t) = split s @ split t"
proof (induction "length s" arbitrary: s rule: less_induct)
  case less
  show ?case
  proof (cases s)
    case Nil
    then show ?thesis using assms by (simp add: split_space split_Nil)
  next
    case (Cons a r)
    show ?thesis
    proof (cases "isspace a")
      case True
      then show ?thesis using less Cons by (simp add: split_space)
    next
      case False
      have "length (dropWhile (\<lambda>x. \<not> isspace x) r) < length s"
        using Cons by (simp add: length_dropWhile_le less_Suc_eq_le)
      then have "split (dropWhile (\<lambda>x. \<not> isspace x) r @ c # t) =
                 split (dropWhile (\<lambda>x. \<not> isspace x) r) @ split t"
        using less by simp
      then show ?thesis
        using False Cons assms
        by (simp add: split_token takeWhile_until_space dropWhile_until_space)
    qed
  qed
qed

lemma isspace_space: "isspace CHR '' ''"
  by (simp add: isspace_def)

lemma split_semicolon: "split '';'' = ['';'']"
  by (simp add: split_token split_Nil isspace_def)

lemma split_context_of:
  "split (context_of H) =
     split (strip (join '' ; '' (map (\<lambda>item. lower (strip (snd item))) H))) @ ['';'']"
  using split_append_space [OF isspace_space, of _ "'';''"]
  by (simp add: context_of_def split_semicolon)

lemma context_of_unfold:
  "context_of H = strip (join '' ; '' (map (\<lambda>(tag, text). lower (strip text)) H)) @ '' ;''"
  by (simp add: context_of_def case_prod_unfold)

subsection \<open>Case\<close>

lemma isspace_lower_char: "isspace (lower_char c) = isspace c"
  by (auto simp: isspace_def lower_char_def Let_def)

lemma lower_char_idem: "lower_char (lower_char c) = lower_char c"
  by (auto simp: lower_char_def Let_def)

lemma isspace_upper_char: "isspace (upper_char c) = isspace c"
  by (auto simp: isspace_def upper_char_def Let_def)

lemma lower_upper_char: "lower_char (upper_char c) = lower_char c"
  by (auto simp: lower_char_def upper_char_def Let_def)

lemma strip_lower: "strip (lower s) = lower (strip s)"
  by (simp add: strip_def lower_def dropWhile_map rev_map comp_def isspace_lower_char)

lemma strip_upper: "strip (upper s) = upper (strip s)"
  by (simp add: strip_def upper_def dropWhile_map rev_map comp_def isspace_upper_char)

lemma lower_lower: "lower (lower s) = lower s"
  by (simp add: lower_def lower_char_idem)

lemma lower_upper: "lower (upper s) = lower s"
  by (simp add: lower_def upper_def lower_upper_char)

lemma context_of_lower: "context_of (map (\<lambda>(tag, text). (tag, lower text)) H) = context_of H"
  by (simp add: context_of_def comp_def case_prod_beta strip_lower lower_lower)

lemma context_of_upper: "context_of (map (\<lambda>(tag, text). (tag, upper text)) H) = context_of H"
  by (simp add: context_of_def comp_def case_prod_beta strip_upper lower_upper)

lemma context_of_via_lower:
  "context_of H = strip (join '' ; '' (map strip (map (\<lambda>item. lower (snd item)) H))) @ '' ;''"
  by (simp add: context_of_def comp_def strip_lower)

lemma context_of_same_up_to_case:
  assumes "map (\<lambda>item. lower (snd item)) H' = map (\<lambda>item. lower (snd item)) H"
  shows "context_of H' = context_of H"
  by (simp only: context_of_via_lower assms)

subsection \<open>The context of the empty history, and the last token\<close>

lemma context_of_Nil: "context_of [] = '' ;''"
  by (simp add: context_of_def strip_def)

lemma split_context_of_Nil: "split (context_of []) = ['';'']"
  by (simp add: split_context_of strip_def split_Nil)

lemma split_context_of_last:
  "split (context_of H) \<noteq> [] \<and> last (split (context_of H)) = '';''"
  by (simp add: split_context_of)

subsection \<open>The tokens of the context, entry by entry\<close>

lemma split_all_space: "list_all isspace ws \<Longrightarrow> split ws = []"
  by (induction ws) (simp_all add: split_Nil split_space)

lemma split_leading_space: "split (dropWhile isspace s) = split s"
  by (induction s) (simp_all add: split_space)

lemma split_trailing_space:
  assumes "list_all isspace ws"
  shows "split (s @ ws) = split s"
proof (cases ws)
  case Nil
  then show ?thesis by simp
next
  case (Cons c r)
  with assms have "isspace c" and "list_all isspace r"
    by simp_all
  then show ?thesis
    using Cons by (simp add: split_append_space split_all_space)
qed

lemma split_strip: "split (strip s) = split s"
proof -
  let ?t = "dropWhile isspace s"
  have "?t = rev (dropWhile isspace (rev ?t)) @ rev (takeWhile isspace (rev ?t))"
    by (metis rev_append rev_rev_ident takeWhile_dropWhile_id)
  moreover have "list_all isspace (rev (takeWhile isspace (rev ?t)))"
    by (simp add: list_all_iff) (meson set_takeWhileD)
  ultimately have "split ?t = split (rev (dropWhile isspace (rev ?t)))"
    by (metis split_trailing_space)
  then show ?thesis
    by (simp add: strip_def split_leading_space)
qed

lemma split_separator: "split (s @ '' ; '' @ t) = split s @ ['';''] @ split t"
proof -
  have "split (s @ CHR '' '' # ('';'' @ CHR '' '' # t)) = split s @ split ('';'' @ CHR '' '' # t)"
    by (rule split_append_space [OF isspace_space])
  also have "split ('';'' @ CHR '' '' # t) = split '';'' @ split t"
    by (rule split_append_space [OF isspace_space])
  finally show ?thesis
    by (simp add: split_semicolon)
qed

lemma split_join_entries:
  "split (join '' ; '' (t # ts)) @ ['';''] = concat (map (\<lambda>x. split x @ ['';'']) (t # ts))"
proof (induction ts arbitrary: t)
  case Nil
  show ?case by simp
next
  case (Cons u ts)
  have "split (join '' ; '' (t # u # ts)) = split t @ ['';''] @ split (join '' ; '' (u # ts))"
    using split_separator [of t "join '' ; '' (u # ts)"] by simp
  with Cons [of u] show ?case by simp
qed

lemma split_lower_strip: "split (lower (strip s)) = split (lower s)"
  by (simp add: strip_lower [symmetric] split_strip)

lemma split_context_of_entries:
  "split (context_of H) =
     (if H = [] then ['';'']
      else concat (map (\<lambda>(tag, text). split (lower text) @ ['';'']) H))"
proof (cases H)
  case Nil
  then show ?thesis by (simp add: split_context_of_Nil)
next
  case (Cons h r)
  have "split (context_of H) =
      split (join '' ; '' (map (\<lambda>item. lower (strip (snd item))) H)) @ ['';'']"
    by (simp add: split_context_of split_strip)
  also have "\<dots> = concat (map (\<lambda>x. split x @ ['';'']) (map (\<lambda>item. lower (strip (snd item))) H))"
    using split_join_entries [of "lower (strip (snd h))" "map (\<lambda>item. lower (strip (snd item))) r"] Cons
    by simp
  also have "\<dots> = concat (map (\<lambda>(tag, text). split (lower text) @ ['';'']) H)"
    by (simp add: comp_def case_prod_unfold split_lower_strip)
  finally show ?thesis
    using Cons by simp
qed

section \<open>What a call returns and what it leaves behind\<close>

lemma forward_cases:
  "forward tokens2ids H u s =
     (case tokens2ids (split (context_of H)) of
        Inl e \<Rightarrow> (Inl (Lookup_raised e), H)
      | Inr ids \<Rightarrow>
          if list_all fits_int64 ids
          then (Inr ([ids], [int (length ids)], H @ [(''sys'', s), (''user'', u)]),
                H @ [(''sys'', s), (''user'', u)])
          else (Inl Tensor_overflow, H))"
  by (simp add: forward_def torch_tensor_def unsqueeze_def Let_def split: sum.splits)

lemma forward_returns:
  assumes "fst (forward tokens2ids H u s) = Inr (dialog_ids, dialog_lens, H')"
  shows "\<exists>ids. tokens2ids (split (context_of H)) = Inr ids \<and> list_all fits_int64 ids \<and>
           dialog_ids = [ids] \<and> dialog_lens = [int (length ids)] \<and>
           H' = H @ [(''sys'', s), (''user'', u)] \<and>
           snd (forward tokens2ids H u s) = H'"
  using assms by (auto simp: forward_cases split: sum.splits if_splits)

lemma returned_encoding_forward:
  "returned_encoding (fst (forward tokens2ids H u s)) =
     (case tokens2ids (split (context_of H)) of
        Inl e \<Rightarrow> Inl (Lookup_raised e)
      | Inr ids \<Rightarrow>
          if list_all fits_int64 ids then Inr ([ids], [int (length ids)])
          else Inl Tensor_overflow)"
  by (simp add: returned_encoding_def forward_cases split: sum.splits)

section \<open>Properties of the encoder\<close>

text \<open>
  C1. For every history, the ids that \<open>forward\<close> returns are the vocabulary lookup applied
  to the whitespace-split tokens of the context: the texts of the history, each stripped
  and lower-cased, joined with \<open>" ; "\<close>, the result stripped and \<open>" ;"\<close> appended. With a
  lookup that gives one id per token, there are as many ids as tokens. Entry by entry,
  these tokens are the words of each lower-cased text in the order of the history, each
  text followed by the token \<open>";"\<close>; for the empty history they are the token \<open>";"\<close> alone.
\<close>

theorem forward_ids_are_lookup_of_tokens:
  assumes "fst (forward tokens2ids H u s) = Inr (dialog_ids, dialog_lens, H')"
  shows "let tokens =
               split (strip (join '' ; '' (map (\<lambda>(tag, text). lower (strip text)) H)) @ '' ;'')
         in (\<exists>ids. tokens2ids tokens = Inr ids \<and> dialog_ids = [ids] \<and>
                  (one_id_per_token tokens2ids \<longrightarrow> length ids = length tokens)) \<and>
            tokens =
              (if H = [] then ['';'']
               else concat (map (\<lambda>(tag, text). split (lower text) @ ['';'']) H))"
proof -
  from forward_returns [OF assms] obtain ids where
    ids: "tokens2ids (split (context_of H)) = Inr ids" "dialog_ids = [ids]"
    by blast
  have "one_id_per_token tokens2ids \<longrightarrow> length ids = length (split (context_of H))"
    using ids(1) by (simp add: one_id_per_token_def)
  with ids have "\<exists>ids. tokens2ids (split (context_of H)) = Inr ids \<and> dialog_ids = [ids] \<and>
      (one_id_per_token tokens2ids \<longrightarrow> length ids = length (split (context_of H)))"
    by blast
  moreover note split_context_of_entries [of H]
  ultimately show ?thesis
    unfolding Let_def context_of_unfold [symmetric] by (rule conjI)
qed

theorem forward_ids_are_lookup_of_tokens_witness:
  "fst (forward (\<lambda>ts. Inr (map (\<lambda>t. int (length t)) ts) :: unit + int list)
          [(''sys'', '' Hello  There ''), (''user'', ''I need a Train'')] ''hi'' ''ok'')
     = Inr ([[5, 5, 1, 1, 4, 1, 5, 1]], [8],
            [(''sys'', '' Hello  There ''), (''user'', ''I need a Train''),
             (''sys'', ''ok''), (''user'', ''hi'')])
   \<and> one_id_per_token (\<lambda>ts. Inr (map (\<lambda>t. int (length t)) ts) :: unit + int list)
   \<and> split (strip (join '' ; '' (map (\<lambda>(tag, text). lower (strip text))
          [(''sys'', '' Hello  There ''), (''user'', ''I need a Train'')])) @ '' ;'')
      = [''hello'', ''there'', '';'', ''i'', ''need'', ''a'', ''train'', '';'']
   \<and> concat (map (\<lambda>(tag, text). split (lower text) @ ['';''])
          [(''sys'', '' Hello  There ''), (''user'', ''I need a Train'')])
      = [''hello'', ''there'', '';'', ''i'', ''need'', ''a'', ''train'', '';'']"
proof -
  let ?lk = "\<lambda>ts. Inr (map (\<lambda>t. int (length t)) ts) :: unit + int list"
  let ?H = "[(''sys'', '' Hello  There ''), (''user'', ''I need a Train'')]"
  have toks: "split (context_of ?H) = [''hello'', ''there'', '';'', ''i'', ''need'', ''a'', ''train'', '';'']"
    by code_simp
  have ret: "fst (forward ?lk ?H ''hi'' ''ok'')
     = Inr ([[5, 5, 1, 1, 4, 1, 5, 1]], [8],
            [(''sys'', '' Hello  There ''), (''user'', ''I need a Train''),
             (''sys'', ''ok''), (''user'', ''hi'')])"
    by (simp add: forward_cases toks fits_int64_def)
  have one: "one_id_per_token ?lk"
    by (auto simp: one_id_per_token_def)
  have unf: "split (strip (join '' ; '' (map (\<lambda>(tag, text). lower (strip text)) ?H)) @ '' ;'')
      = split (context_of ?H)"
    by (simp only: context_of_unfold)
  show ?thesis
    using forward_ids_are_lookup_of_tokens [OF ret] ret one
    unfolding Let_def unf toks
    by simp
qed

text \<open>
  C2. When the lookup gives ids that fit, the call returns, and after a call that returns
  the history is the old history with the system turn and then the user turn appended;
  the entries it had before are unchanged. The returned history and the history object
  are the same list.
\<close>

theorem forward_appends_sys_then_user:
  "(tokens2ids (split (context_of H)) = Inr ids \<and> list_all fits_int64 ids \<longrightarrow>
      forward tokens2ids H u s =
        (Inr ([ids], [int (length ids)], H @ [(''sys'', s), (''user'', u)]),
         H @ [(''sys'', s), (''user'', u)])) \<and>
   (fst (forward tokens2ids H u s) = Inr (dialog_ids, dialog_lens, H') \<longrightarrow>
      H' = H @ [(''sys'', s), (''user'', u)] \<and>
      snd (forward tokens2ids H u s) = H @ [(''sys'', s), (''user'', u)] \<and>
      take (length H) H' = H)"
proof -
  have "H' = H @ [(''sys'', s), (''user'', u)] \<and>
      snd (forward tokens2ids H u s) = H @ [(''sys'', s), (''user'', u)] \<and>
      take (length H) H' = H"
    if r: "fst (forward tokens2ids H u s) = Inr (dialog_ids, dialog_lens, H')"
    using forward_returns [OF r] by auto
  then show ?thesis
    by (simp add: forward_cases)
qed

theorem forward_appends_sys_then_user_witness:
  "(\<lambda>ts. Inr (map (\<lambda>t. int (length t)) ts) :: unit + int list)
      (split (context_of [(''user'', ''hello'')])) = Inr [5, 1]
   \<and> list_all fits_int64 [5, 1]
   \<and> fst (forward (\<lambda>ts. Inr (map (\<lambda>t. int (length t)) ts) :: unit + int list)
          [(''user'', ''hello'')] ''to cambridge'' ''sure, when?'')
     = Inr ([[5, 1]], [2],
            [(''user'', ''hello''), (''sys'', ''sure, when?''), (''user'', ''to cambridge'')])
   \<and> snd (forward (\<lambda>ts. Inr (map (\<lambda>t. int (length t)) ts) :: unit + int list)
          [(''user'', ''hello'')] ''to cambridge'' ''sure, when?'')
     = [(''user'', ''hello''), (''sys'', ''sure, when?''), (''user'', ''to cambridge'')]"
proof -
  let ?lk = "\<lambda>ts. Inr (map (\<lambda>t. int (length t)) ts) :: unit + int list"
  have toks: "split (context_of [(''user'', ''hello'')]) = [''hello'', '';'']"
    by code_simp
  have fits: "list_all fits_int64 [5, 1]"
    by (simp add: fits_int64_def)
  show ?thesis
    using forward_appends_sys_then_user
      [of ?lk "[(''user'', ''hello'')]" "[5, 1]" "''to cambridge''" "''sure, when?''" "[[5, 1]]" "[2]"
        "[(''user'', ''hello''), (''sys'', ''sure, when?''), (''user'', ''to cambridge'')]"]
      toks fits
    by simp
qed

text \<open>
  C3. The ids and the length that a call returns (or the error it raises) are computed
  from the history as it was before the call, and the two utterances play no part: two
  calls on the same history with different utterances return the same ids and length.
\<close>

theorem forward_encoding_ignores_new_turns:
  "returned_encoding (fst (forward tokens2ids H u1 s1)) =
   returned_encoding (fst (forward tokens2ids H u2 s2)) \<and>
   returned_encoding (fst (forward tokens2ids H u1 s1)) =
     (case tokens2ids (split (context_of H)) of
        Inl e \<Rightarrow> Inl (Lookup_raised e)
      | Inr ids \<Rightarrow>
          if list_all fits_int64 ids then Inr ([ids], [int (length ids)])
          else Inl Tensor_overflow)"
  by (simp only: returned_encoding_forward)

text \<open>
  C4. In what a call returns, the length is the number of ids: the ids are one row, and
  the lengths hold the length of that row.
\<close>

theorem forward_length_is_number_of_ids:
  assumes "fst (forward tokens2ids H u s) = Inr (dialog_ids, dialog_lens, H')"
  shows "\<exists>ids. dialog_ids = [ids] \<and> dialog_lens = [int (length ids)]"
  using forward_returns [OF assms] by blast

theorem forward_length_is_number_of_ids_witness:
  "fst (forward (\<lambda>ts. Inr (map (\<lambda>t. int (length t)) ts) :: unit + int list)
          [(''sys'', ''a b''), (''user'', ''C'')] ''x'' ''y'')
     = Inr ([[1, 1, 1, 1, 1]], [5],
            [(''sys'', ''a b''), (''user'', ''C''), (''sys'', ''y''), (''user'', ''x'')])
   \<and> (\<exists>ids. [[1, 1, 1, 1, 1]] = [ids] \<and> [5] = [int (length ids)])"
proof -
  let ?lk = "\<lambda>ts. Inr (map (\<lambda>t. int (length t)) ts) :: unit + int list"
  have toks: "split (context_of [(''sys'', ''a b''), (''user'', ''C'')]) =
      [''a'', ''b'', '';'', ''c'', '';'']"
    by code_simp
  have ret: "fst (forward ?lk [(''sys'', ''a b''), (''user'', ''C'')] ''x'' ''y'')
     = Inr ([[1, 1, 1, 1, 1]], [5],
            [(''sys'', ''a b''), (''user'', ''C''), (''sys'', ''y''), (''user'', ''x'')])"
    by (simp add: forward_cases toks fits_int64_def)
  show ?thesis
    using forward_length_is_number_of_ids [OF ret] ret by simp
qed

text \<open>
  C5. On the empty history nothing is raised by the encoder itself: the context is the
  delimiter \<open>" ;"\<close> alone, the lookup is given the single token \<open>";"\<close>, and with a lookup
  that gives one id per token the call returns one id and the length 1.
\<close>

theorem forward_empty_history:
  "context_of [] = '' ;'' \<and> split (context_of []) = ['';''] \<and>
   (tokens2ids ['';''] = Inr ids \<and> list_all fits_int64 ids \<and> one_id_per_token tokens2ids \<longrightarrow>
      length ids = 1 \<and>
      forward tokens2ids [] u s =
        (Inr ([ids], [1], [(''sys'', s), (''user'', u)]), [(''sys'', s), (''user'', u)]))"
proof -
  have "length ids = 1 \<and>
      forward tokens2ids [] u s =
        (Inr ([ids], [1], [(''sys'', s), (''user'', u)]), [(''sys'', s), (''user'', u)])"
    if l: "tokens2ids ['';''] = Inr ids" and f: "list_all fits_int64 ids"
      and o: "one_id_per_token tokens2ids"
  proof -
    from o l have "length ids = 1"
      by (auto simp: one_id_per_token_def)
    then show ?thesis
      using l f by (simp add: forward_cases split_context_of_Nil)
  qed
  then show ?thesis
    using context_of_Nil split_context_of_Nil by blast
qed

theorem forward_empty_history_witness:
  "(\<lambda>ts. Inr (map (\<lambda>t. int (length t)) ts) :: unit + int list) ['';''] = Inr [1]
   \<and> list_all fits_int64 [1]
   \<and> one_id_per_token (\<lambda>ts. Inr (map (\<lambda>t. int (length t)) ts) :: unit + int list)
   \<and> forward (\<lambda>ts. Inr (map (\<lambda>t. int (length t)) ts) :: unit + int list) [] ''hi'' ''ok'' =
        (Inr ([[1]], [1], [(''sys'', ''ok''), (''user'', ''hi'')]),
         [(''sys'', ''ok''), (''user'', ''hi'')])"
proof -
  let ?lk = "\<lambda>ts. Inr (map (\<lambda>t. int (length t)) ts) :: unit + int list"
  have one: "one_id_per_token ?lk"
    by (auto simp: one_id_per_token_def)
  have fits: "list_all fits_int64 [1]"
    by (simp add: fits_int64_def)
  show ?thesis
    using forward_empty_history [of ?lk "[1]" "''hi''" "''ok''"] one fits by simp
qed

text \<open>
  C6. Case folding: for a history of printable ASCII texts, putting the texts in lower
  case, or in upper case, leaves the context unchanged, and so what the call returns as
  ids and length; more generally every history whose texts are the same up to the case
  of their letters has the same context.
\<close>

theorem case_folding_invariance:
  assumes "list_all (\<lambda>(tag, text). printable_ascii text) H"
  shows "context_of (map (\<lambda>(tag, text). (tag, lower text)) H) = context_of H \<and>
         context_of (map (\<lambda>(tag, text). (tag, upper text)) H) = context_of H \<and>
         returned_encoding (fst (forward tokens2ids (map (\<lambda>(tag, text). (tag, lower text)) H) u s)) =
           returned_encoding (fst (forward tokens2ids H u s)) \<and>
         returned_encoding (fst (forward tokens2ids (map (\<lambda>(tag, text). (tag, upper text)) H) u s)) =
           returned_encoding (fst (forward tokens2ids H u s)) \<and>
         (\<forall>H'. map (\<lambda>(tag, text). lower text) H' = map (\<lambda>(tag, text). lower text) H \<longrightarrow>
            context_of H' = context_of H)"
proof -
  have same: "\<forall>H'. map (\<lambda>(tag, text). lower text) H' = map (\<lambda>(tag, text). lower text) H \<longrightarrow>
      context_of H' = context_of H"
  proof (intro allI impI)
    fix H' :: "turn list"
    assume "map (\<lambda>(tag, text). lower text) H' = map (\<lambda>(tag, text). lower text) H"
    then have "map (\<lambda>item. lower (snd item)) H' = map (\<lambda>item. lower (snd item)) H"
      by (simp add: case_prod_unfold)
    then show "context_of H' = context_of H"
      by (rule context_of_same_up_to_case)
  qed
  have "context_of (map (\<lambda>(tag, text). (tag, lower text)) H) = context_of H"
    by (rule context_of_lower)
  moreover have "context_of (map (\<lambda>(tag, text). (tag, upper text)) H) = context_of H"
    by (rule context_of_upper)
  moreover have "returned_encoding (fst (forward tokens2ids (map (\<lambda>(tag, text). (tag, lower text)) H) u s)) =
      returned_encoding (fst (forward tokens2ids H u s))"
    by (simp only: returned_encoding_forward context_of_lower)
  moreover have "returned_encoding (fst (forward tokens2ids (map (\<lambda>(tag, text). (tag, upper text)) H) u s)) =
      returned_encoding (fst (forward tokens2ids H u s))"
    by (simp only: returned_encoding_forward context_of_upper)
  ultimately show ?thesis
    using same by blast
qed

theorem case_folding_invariance_witness:
  "list_all (\<lambda>(tag, text). printable_ascii text) [(''sys'', ''Hello''), (''user'', ''I need a Train'')]
   \<and> context_of [(''sys'', ''hello''), (''user'', ''i need a train'')] = ''hello ; i need a train ;''
   \<and> context_of [(''sys'', ''HELLO''), (''user'', ''I NEED A TRAIN'')] = ''hello ; i need a train ;''
   \<and> context_of [(''sys'', ''Hello''), (''user'', ''I need a Train'')] = ''hello ; i need a train ;''"
proof -
  let ?H = "[(''sys'', ''Hello''), (''user'', ''I need a Train'')]"
  have p: "list_all (\<lambda>(tag, text). printable_ascii text) ?H"
    by (simp add: printable_ascii_def)
  have l: "map (\<lambda>(tag, text). (tag, lower text)) ?H =
      [(''sys'', ''hello''), (''user'', ''i need a train'')]"
    by code_simp
  have u: "map (\<lambda>(tag, text). (tag, upper text)) ?H =
      [(''sys'', ''HELLO''), (''user'', ''I NEED A TRAIN'')]"
    by code_simp
  have c: "context_of ?H = ''hello ; i need a train ;''"
    by code_simp
  show ?thesis
    using case_folding_invariance [OF p, of "\<lambda>ts. Inr [] :: unit + int list" "[]" "[]"] p
    by (simp only: l u c simp_thms)
qed

text \<open>
  C7. The example: on the history \<open>[("sys", "hello"), ("user", "I need a train")]\<close>, with
  the user utterance \<open>"to cambridge"\<close> and the system utterance \<open>"sure, when?"\<close>, the
  context is \<open>"hello ; i need a train ;"\<close>, the lookup is given the seven tokens
  \<open>hello ; i need a train ;\<close>, and the call leaves the history followed by
  \<open>("sys", "sure, when?")\<close> and then \<open>("user", "to cambridge")\<close>.
\<close>

theorem forward_example:
  "context_of [(''sys'', ''hello''), (''user'', ''I need a train'')] = ''hello ; i need a train ;'' \<and>
   split (context_of [(''sys'', ''hello''), (''user'', ''I need a train'')]) =
     [''hello'', '';'', ''i'', ''need'', ''a'', ''train'', '';''] \<and>
   forward tokens2ids [(''sys'', ''hello''), (''user'', ''I need a train'')]
       ''to cambridge'' ''sure, when?'' =
     (case tokens2ids [''hello'', '';'', ''i'', ''need'', ''a'', ''train'', '';''] of
        Inl e \<Rightarrow> (Inl (Lookup_raised e), [(''sys'', ''hello''), (''user'', ''I need a train'')])
      | Inr ids \<Rightarrow>
          if list_all fits_int64 ids
          then (Inr ([ids], [int (length ids)],
                     [(''sys'', ''hello''), (''user'', ''I need a train''),
                      (''sys'', ''sure, when?''), (''user'', ''to cambridge'')]),
                [(''sys'', ''hello''), (''user'', ''I need a train''),
                 (''sys'', ''sure, when?''), (''user'', ''to cambridge'')])
          else (Inl Tensor_overflow, [(''sys'', ''hello''), (''user'', ''I need a train'')]))"
proof -
  have c: "context_of [(''sys'', ''hello''), (''user'', ''I need a train'')] =
      ''hello ; i need a train ;''"
    by code_simp
  have t: "split ''hello ; i need a train ;'' =
      [''hello'', '';'', ''i'', ''need'', ''a'', ''train'', '';'']"
    by code_simp
  show ?thesis
    by (simp add: forward_cases c t split: sum.splits)
qed

text \<open>
  C8. When the vocabulary lookup raises on the tokens, the call raises that same error:
  it is neither caught nor replaced.
\<close>

theorem forward_passes_lookup_error_on:
  assumes "tokens2ids (split (context_of H)) = Inl e"
  shows "fst (forward tokens2ids H u s) = Inl (Lookup_raised e)"
  using assms by (simp add: forward_cases)

theorem forward_passes_lookup_error_on_witness:
  "(\<lambda>ts. if ''hello'' \<in> set ts then Inl ''KeyError'' else Inr (map (\<lambda>t. int (length t)) ts))
      (split (context_of [(''sys'', ''Hello'')])) = Inl ''KeyError''
   \<and> fst (forward
        (\<lambda>ts. if ''hello'' \<in> set ts then Inl ''KeyError'' else Inr (map (\<lambda>t. int (length t)) ts))
        [(''sys'', ''Hello'')] ''a'' ''b'')
      = Inl (Lookup_raised ''KeyError'')"
proof -
  let ?lk = "\<lambda>ts. if ''hello'' \<in> set ts then Inl ''KeyError''
                  else Inr (map (\<lambda>t. int (length t)) ts)"
  have toks: "split (context_of [(''sys'', ''Hello'')]) = [''hello'', '';'']"
    by code_simp
  have fails: "?lk (split (context_of [(''sys'', ''Hello'')])) = Inl ''KeyError''"
    by (simp add: toks)
  show ?thesis
    using forward_passes_lookup_error_on [of ?lk "[(''sys'', ''Hello'')]" "''KeyError''" "''a''" "''b''"]
      fails
    by simp
qed

text \<open>
  C9. When the vocabulary lookup raises, the history is left as it was: the two turns are
  appended only after the lookup has returned, so a call that raises changes nothing.
\<close>

theorem forward_failed_call_keeps_history:
  "(tokens2ids (split (context_of H)) = Inl e \<longrightarrow> snd (forward tokens2ids H u s) = H) \<and>
   (fst (forward tokens2ids H u s) = Inl err \<longrightarrow> snd (forward tokens2ids H u s) = H)"
  by (auto simp: forward_cases split: sum.splits if_splits)

theorem forward_failed_call_keeps_history_witness:
  "(\<lambda>ts. if ''hello'' \<in> set ts then Inl ''KeyError'' else Inr (map (\<lambda>t. int (length t)) ts))
      (split (context_of [(''sys'', ''Hello'')])) = Inl ''KeyError''
   \<and> fst (forward
        (\<lambda>ts. if ''hello'' \<in> set ts then Inl ''KeyError'' else Inr (map (\<lambda>t. int (length t)) ts))
        [(''sys'', ''Hello'')] ''a'' ''b'')
      = Inl (Lookup_raised ''KeyError'')
   \<and> snd (forward
        (\<lambda>ts. if ''hello'' \<in> set ts then Inl ''KeyError'' else Inr (map (\<lambda>t. int (length t)) ts))
        [(''sys'', ''Hello'')] ''a'' ''b'')
      = [(''sys'', ''Hello'')]"
proof -
  let ?lk = "\<lambda>ts. if ''hello'' \<in> set ts then Inl ''KeyError''
                  else Inr (map (\<lambda>t. int (length t)) ts)"
  have toks: "split (context_of [(''sys'', ''Hello'')]) = [''hello'', '';'']"
    by code_simp
  have fails: "?lk (split (context_of [(''sys'', ''Hello'')])) = Inl ''KeyError''"
    by (simp add: toks)
  have raised: "fst (forward ?lk [(''sys'', ''Hello'')] ''a'' ''b'') = Inl (Lookup_raised ''KeyError'')"
    by (simp add: forward_cases toks)
  show ?thesis
    using forward_failed_call_keeps_history
      [of ?lk "[(''sys'', ''Hello'')]" "''KeyError''" "''a''" "''b''" "Lookup_raised ''KeyError''"]
      fails raised
    by simp
qed

text \<open>
  C10. For every history, empty or not, the context ends with the delimiter \<open>" ;"\<close>, so
  the tokens given to the lookup are not empty and the last of them is \<open>";"\<close>; with a
  lookup that gives one id per token, the length that a call returns is at least 1.
\<close>

theorem context_ends_with_delimiter:
  "(\<exists>before. context_of H = before @ '' ;'') \<and>
   split (context_of H) \<noteq> [] \<and> last (split (context_of H)) = '';'' \<and>
   (fst (forward tokens2ids H u s) = Inr (dialog_ids, dialog_lens, H') \<and>
    one_id_per_token tokens2ids \<longrightarrow>
      (\<exists>n. dialog_lens = [n] \<and> 1 \<le> n))"
proof -
  have "\<exists>n. dialog_lens = [n] \<and> 1 \<le> n"
    if r: "fst (forward tokens2ids H u s) = Inr (dialog_ids, dialog_lens, H')"
      and o: "one_id_per_token tokens2ids"
  proof -
    from forward_returns [OF r] obtain ids where
      ids: "tokens2ids (split (context_of H)) = Inr ids" "dialog_lens = [int (length ids)]"
      by blast
    from o ids(1) have "length ids = length (split (context_of H))"
      by (simp add: one_id_per_token_def)
    moreover have "split (context_of H) \<noteq> []"
      by (simp add: split_context_of)
    ultimately have "1 \<le> int (length ids)"
      by (cases "split (context_of H)") auto
    with ids(2) show ?thesis by simp
  qed
  moreover have "\<exists>before. context_of H = before @ '' ;''"
    by (simp add: context_of_def)
  ultimately show ?thesis
    using split_context_of_last [of H] by blast
qed

theorem context_ends_with_delimiter_witness:
  "fst (forward (\<lambda>ts. Inr (map (\<lambda>t. int (length t)) ts) :: unit + int list)
          [(''sys'', ''  '')] ''hi'' ''ok'')
     = Inr ([[1]], [1], [(''sys'', ''  ''), (''sys'', ''ok''), (''user'', ''hi'')])
   \<and> one_id_per_token (\<lambda>ts. Inr (map (\<lambda>t. int (length t)) ts) :: unit + int list)
   \<and> split (context_of [(''sys'', ''  '')]) = ['';'']
   \<and> last (split (context_of [(''sys'', ''  '')])) = '';''"
proof -
  let ?lk = "\<lambda>ts. Inr (map (\<lambda>t. int (length t)) ts) :: unit + int list"
  have toks: "split (context_of [(''sys'', ''  '')]) = ['';'']"
    by code_simp
  have ret: "fst (forward ?lk [(''sys'', ''  '')] ''hi'' ''ok'')
     = Inr ([[1]], [1], [(''sys'', ''  ''), (''sys'', ''ok''), (''user'', ''hi'')])"
    by (simp add: forward_cases toks fits_int64_def)
  have one: "one_id_per_token ?lk"
    by (auto simp: one_id_per_token_def)
  show ?thesis
    using context_ends_with_delimiter [of "[(''sys'', ''  '')]" ?lk "''hi''" "''ok''" "[[1]]" "[1]"
        "[(''sys'', ''  ''), (''sys'', ''ok''), (''user'', ''hi'')]"] ret one toks
    by simp
qed

end
